theory Spec2Isabelle
  imports Complex_Main
begin

section \<open>Session deduplication: \<^verbatim>\<open>src/helper/session-helper.ts\<close>\<close>

text \<open>
  The module keeps two process-wide values: the array \<^verbatim>\<open>refreshingSessions\<close> and the
  RxJS subject \<^verbatim>\<open>refreshedSubject\<close>. \<^verbatim>\<open>getSessionFromStorageWrapper\<close> is an async
  function on a single-threaded event loop. It runs without interruption up to its one
  \<^verbatim>\<open>await\<close>, and again from the settled \<^verbatim>\<open>await\<close> to its \<^verbatim>\<open>return\<close> or \<^verbatim>\<open>throw\<close>.
  The model below has one atomic step for each of these uninterrupted pieces and runs any
  interleaving of them over an explicit state.
\<close>

subsection \<open>Values\<close>

text \<open>
  A \<^verbatim>\<open>Session\<close> of the identity library is opaque but for \<^verbatim>\<open>info.sessionId\<close>,
  \<^verbatim>\<open>info.webId\<close> and \<^verbatim>\<open>info.isLoggedIn\<close>, the fields this repository reads.
\<close>

record SessionInfo =
  sessionId :: string
  webId :: "string option"
  isLoggedIn :: bool

record Session =
  info :: SessionInfo

text \<open>
  What travels on \<^verbatim>\<open>refreshedSubject: Subject<Session | Error | null>\<close>. An \<^verbatim>\<open>Error\<close>
  is represented by its \<^verbatim>\<open>message\<close>. \<open>Nullish\<close> stands for \<^verbatim>\<open>null\<close> and for the
  \<^verbatim>\<open>undefined\<close> that \<^verbatim>\<open>session!\<close> lets through; the code treats both alike
  (\<^verbatim>\<open>emittedValue?.info\<close>).
\<close>

datatype emitted = Sess Session | Err string | Nullish

text \<open>
  How the promise returned by the backing store's \<^verbatim>\<open>getSessionFromStorage\<close> settles:
  fulfilled with a session or with no session (not found), or rejected with some error.
\<close>

datatype fetch_result = Resolved "Session option" | Rejected string

text \<open>How a call of the wrapper settles: it returns a session or null, or it throws an
  \<^verbatim>\<open>Error\<close> with the given message.\<close>

datatype outcome = Returned "Session option" | Threw string

type_synonym IStorage = nat

subsection \<open>State\<close>

text \<open>
  \<^item> \<open>refreshingSessions\<close>: the array of the same name.
  \<^item> \<open>observers\<close>: the subscriptions on \<^verbatim>\<open>refreshedSubject\<close>, each made by
    \<^verbatim>\<open>firstValueFrom(refreshedSubject.pipe(filter(...)))\<close> in a call (numbered) that
    waits for the given session identifier.
  \<^item> \<open>awaiting\<close>: the calls suspended at \<^verbatim>\<open>await getSessionFromStorage(sessionId, {storage})\<close>.
  \<^item> \<open>fetches\<close>: the log of the invocations of \<^verbatim>\<open>getSessionFromStorage\<close>.
  \<^item> \<open>emissions\<close>: the log of the values passed to \<^verbatim>\<open>refreshedSubject.next\<close>.
  \<^item> \<open>settled\<close>: the calls that have returned or thrown, with how.
  \<^item> \<open>nextCall\<close>: the number the next call of the wrapper gets.
\<close>

record state =
  refreshingSessions :: "string list"
  observers :: "(nat \<times> string) list"
  awaiting :: "(nat \<times> string) list"
  fetches :: "(string \<times> IStorage option) list"
  emissions :: "emitted list"
  settled :: "(nat \<times> outcome) list"
  nextCall :: nat

definition init :: state where
  "init = \<lparr>refreshingSessions = [], observers = [], awaiting = [], fetches = [],
            emissions = [], settled = [], nextCall = 0\<rparr>"

subsection \<open>Array operations\<close>

text \<open>\<^verbatim>\<open>Array.prototype.indexOf\<close>: the first index of the element, or \<open>-1\<close>.\<close>

fun indexOf :: "'a list \<Rightarrow> 'a \<Rightarrow> int" where
  "indexOf [] x = -1"
| "indexOf (y # ys) x =
     (if y = x then 0 else (let i = indexOf ys x in if i < 0 then -1 else i + 1))"

text \<open>
  \<^verbatim>\<open>xs.splice(start, 1)\<close>: a negative \<open>start\<close> counts from the end (so \<open>-1\<close> removes
  the last element), a \<open>start\<close> beyond the end removes nothing.
\<close>

definition splice1 :: "'a list \<Rightarrow> int \<Rightarrow> 'a list" where
  "splice1 xs start =
     (let n = int (length xs);
          st = (if start < 0 then max (n + start) 0 else min start n)
      in take (nat st) xs @ drop (nat st + 1) xs)"

subsection \<open>The subject\<close>

text \<open>The predicate given to \<^verbatim>\<open>filter\<close> by a call waiting for \<open>sid\<close> (lines 17 to 20).\<close>

fun sessionFilter :: "string \<Rightarrow> emitted \<Rightarrow> bool" where
  "sessionFilter sid (Sess s) = (sessionId (info s) = sid)"
| "sessionFilter sid (Err m) = (m = sid)"
| "sessionFilter sid Nullish = False"

text \<open>What a waiting call does with the value \<^verbatim>\<open>firstValueFrom\<close> gave it (lines 25 to 31).\<close>

fun followerResume :: "emitted \<Rightarrow> outcome" where
  "followerResume (Err m) = Threw m"
| "followerResume (Sess s) = Returned (Some s)"
| "followerResume Nullish = Returned None"

text \<open>
  \<^verbatim>\<open>refreshedSubject.next(v)\<close>: the value goes to every current observer, in the order
  of subscription. An observer whose filter accepts it settles its promise with it and
  unsubscribes (\<^verbatim>\<open>firstValueFrom\<close>); the others stay subscribed. The waiting call has
  nothing left to do but return or throw that value, so it is recorded as settled here.
\<close>

definition subjectNext :: "emitted \<Rightarrow> state \<Rightarrow> state" where
  "subjectNext v s =
     s\<lparr>emissions := emissions s @ [v],
       observers := filter (\<lambda>(k, sid). \<not> sessionFilter sid v) (observers s),
       settled := settled s @
         map (\<lambda>(k, sid). (k, followerResume v))
           (filter (\<lambda>(k, sid). sessionFilter sid v) (observers s))\<rparr>"

subsection \<open>The wrapper\<close>

text \<open>
  A call of \<^verbatim>\<open>getSessionFromStorageWrapper(sessionId, storage)\<close> up to its \<^verbatim>\<open>await\<close>
  (lines 9 to 42). The third parameter \<^verbatim>\<open>onNewRefreshToken\<close> is never used.
\<close>

definition wrapperCall :: "string \<Rightarrow> IStorage option \<Rightarrow> state \<Rightarrow> state" where
  "wrapperCall sid storage s =
     (if indexOf (refreshingSessions s) sid > -1
      then s\<lparr>observers := observers s @ [(nextCall s, sid)],
             nextCall := Suc (nextCall s)\<rparr>
      else s\<lparr>refreshingSessions := refreshingSessions s @ [sid],
             fetches := fetches s @ [(sid, storage)],
             awaiting := awaiting s @ [(nextCall s, sid)],
             nextCall := Suc (nextCall s)\<rparr>)"

text \<open>The value the leader emits after a fulfilled fetch: \<^verbatim>\<open>refreshedSubject.next(session!)\<close>.\<close>

fun emittedOf :: "Session option \<Rightarrow> emitted" where
  "emittedOf (Some x) = Sess x"
| "emittedOf None = Nullish"

text \<open>The leader \<open>k\<close> of \<open>sid\<close> from the settled \<^verbatim>\<open>await\<close> to its \<^verbatim>\<open>return\<close>
  (lines 43 to 56).\<close>

fun wrapperResume :: "nat \<Rightarrow> string \<Rightarrow> fetch_result \<Rightarrow> state \<Rightarrow> state" where
  "wrapperResume k sid (Rejected e) s =
     (let s1 = subjectNext (Err sid) s;
          s2 = subjectNext Nullish s1;
          s3 = s2\<lparr>refreshingSessions :=
                    splice1 (refreshingSessions s2) (indexOf (refreshingSessions s2) sid)\<rparr>
      in s3\<lparr>settled := settled s3 @ [(k, Returned None)]\<rparr>)"
| "wrapperResume k sid (Resolved session) s =
     (let s1 = subjectNext (emittedOf session) s;
          s2 = subjectNext Nullish s1;
          s3 = s2\<lparr>refreshingSessions :=
                    splice1 (refreshingSessions s2) (indexOf (refreshingSessions s2) sid)\<rparr>
      in s3\<lparr>settled := settled s3 @ [(k, Returned session)]\<rparr>)"

subsection \<open>The event loop\<close>

text \<open>
  Two kinds of event drive the module: a new call of the wrapper, and the backing store
  settling the fetch that call \<open>k\<close> awaits. A \<open>Settle\<close> for a call that awaits no fetch
  cannot happen and changes nothing.
\<close>

datatype event = Call string "IStorage option" | Settle nat fetch_result

fun step :: "event \<Rightarrow> state \<Rightarrow> state" where
  "step (Call sid storage) s = wrapperCall sid storage s"
| "step (Settle k r) s =
     (case map_of (awaiting s) k of
        None \<Rightarrow> s
      | Some sid \<Rightarrow>
          wrapperResume k sid r (s\<lparr>awaiting := filter (\<lambda>(j, _). j \<noteq> k) (awaiting s)\<rparr>))"

fun run :: "event list \<Rightarrow> state \<Rightarrow> state" where
  "run [] s = s"
| "run (e # es) s = run es (step e s)"

subsection \<open>Predicates used to state the properties\<close>

text \<open>The event is the settling of the fetch awaited by call \<open>k\<close>.\<close>

fun settles :: "nat \<Rightarrow> event \<Rightarrow> bool" where
  "settles k (Settle j r) = (j = k)"
| "settles k (Call sid storage) = False"

text \<open>How often \<^verbatim>\<open>getSessionFromStorage\<close> has been invoked for \<open>sid\<close>.\<close>

definition fetchCount :: "string \<Rightarrow> state \<Rightarrow> nat" where
  "fetchCount sid s = length (filter (\<lambda>(i, storage). i = sid) (fetches s))"

text \<open>The numbers of all calls made so far, by where each call stands.\<close>

definition callIds :: "state \<Rightarrow> nat list" where
  "callIds s = map fst (settled s) @ map fst (awaiting s) @ map fst (observers s)"

text \<open>
  The invariant of the module: \<^verbatim>\<open>refreshingSessions\<close> lists, in order, the identifiers
  of the fetches in flight, no identifier twice; and every call is in one place only
  (settled, awaiting its fetch, or subscribed), under a number already given out.
\<close>

definition coherent :: "state \<Rightarrow> bool" where
  "coherent s \<longleftrightarrow>
     refreshingSessions s = map snd (awaiting s) \<and>
     distinct (map snd (awaiting s)) \<and>
     distinct (callIds s) \<and>
     list_all (\<lambda>k. k < nextCall s) (callIds s)"

text \<open>What the leader of \<open>sid\<close> emits first when its fetch has settled with \<open>r\<close>, and
  what it then returns (read off the two branches of \<open>wrapperResume\<close>).\<close>

fun notification :: "string \<Rightarrow> fetch_result \<Rightarrow> emitted" where
  "notification sid (Rejected e) = Err sid"
| "notification sid (Resolved session) = emittedOf session"

fun leaderReturn :: "fetch_result \<Rightarrow> Session option" where
  "leaderReturn (Rejected e) = None"
| "leaderReturn (Resolved session) = session"

section \<open>The error handler: \<^verbatim>\<open>src/http-error\<close>\<close>

text \<open>
  A JavaScript \<^verbatim>\<open>number\<close>, as far as truthiness and \<^verbatim>\<open><\<close> tell numbers apart: a
  finite value (\<open>-0\<close> and \<open>0\<close> are one value here; both are falsy and neither is less
  than the other), \<^verbatim>\<open>NaN\<close>, or an infinity.
\<close>

datatype number = Num rat | NaN | PosInfinity | NegInfinity

fun truthyNumber :: "number \<Rightarrow> bool" where
  "truthyNumber (Num q) = (q \<noteq> 0)"
| "truthyNumber NaN = False"
| "truthyNumber PosInfinity = True"
| "truthyNumber NegInfinity = True"

text \<open>\<^verbatim>\<open>a || b\<close> on numbers.\<close>

definition orNumber :: "number \<Rightarrow> number \<Rightarrow> number" where
  "orNumber a b = (if truthyNumber a then a else b)"

text \<open>\<^verbatim>\<open>a < b\<close> on numbers: false as soon as one side is \<^verbatim>\<open>NaN\<close>.\<close>

fun lessNumber :: "number \<Rightarrow> number \<Rightarrow> bool" where
  "lessNumber (Num a) (Num b) = (a < b)"
| "lessNumber NaN b = False"
| "lessNumber a NaN = False"
| "lessNumber NegInfinity NegInfinity = False"
| "lessNumber NegInfinity b = True"
| "lessNumber a NegInfinity = False"
| "lessNumber PosInfinity b = False"
| "lessNumber a PosInfinity = True"

text \<open>
  An \<^verbatim>\<open>Error\<close> has a message; an \<^verbatim>\<open>HttpError\<close> (\<^verbatim>\<open>http-error.ts\<close>) is an \<^verbatim>\<open>Error\<close>
  that also has a \<^verbatim>\<open>statusCode: number\<close>. \<^verbatim>\<open>error instanceof HttpError\<close> is the
  constructor test.
\<close>

datatype error = Error string | HttpError string number

fun message :: "error \<Rightarrow> string" where
  "message (Error m) = m"
| "message (HttpError m c) = m"

text \<open>The part of an Express response these middlewares write: the status code set by
  \<^verbatim>\<open>res.status\<close> and the body given to \<^verbatim>\<open>res.send\<close> (none while nothing is sent).\<close>

record Response =
  resStatus :: number
  resBody :: "string option"

definition status :: "number \<Rightarrow> Response \<Rightarrow> Response" where
  "status c res = res\<lparr>resStatus := c\<rparr>"

definition send :: "string \<Rightarrow> Response \<Rightarrow> Response" where
  "send b res = res\<lparr>resBody := Some b\<rparr>"

text \<open>\<^verbatim>\<open>errorHandler(error, req, res, next)\<close> (\<^verbatim>\<open>error-handler.ts\<close>, lines 12 to 21). It
  reads neither \<^verbatim>\<open>req\<close> nor \<^verbatim>\<open>next\<close>; the two log lines are left out.\<close>

fun errorHandler :: "error \<Rightarrow> Response \<Rightarrow> Response" where
  "errorHandler (HttpError m c) res = send m (status (orNumber c (Num 500)) res)"
| "errorHandler (Error m) res = send m (status (Num 500) res)"

section \<open>The access grant check: \<^verbatim>\<open>validateAccessGrant\<close>\<close>

text \<open>The two fields of the Express session data that the middleware reads, both
  optional strings (\<^verbatim>\<open>session-data\<close> declaration).\<close>

record SessionData =
  accessGrant :: "string option"
  accessGrantExpirationDate :: "string option"

text \<open>Truthiness of an optional string: absent and the empty string are falsy.\<close>

fun truthyString :: "string option \<Rightarrow> bool" where
  "truthyString None = False"
| "truthyString (Some t) = (t \<noteq> [])"

text \<open>
  \<^verbatim>\<open>validateAccessGrant(req, res, next)\<close> (lines 183 to 199). \<open>getTime d\<close> stands for
  \<^verbatim>\<open>new Date(d).getTime()\<close> (\<^verbatim>\<open>NaN\<close> for a string that is no date) and \<open>now\<close> for
  \<^verbatim>\<open>Date.now()\<close>; both belong to the runtime and are parameters. The result is the
  response and whether \<^verbatim>\<open>next()\<close> was called.
\<close>

definition validateAccessGrant ::
    "(string \<Rightarrow> number) \<Rightarrow> number \<Rightarrow> SessionData \<Rightarrow> Response \<Rightarrow> Response \<times> bool" where
  "validateAccessGrant getTime now session res =
     (if \<not> truthyString (accessGrant session)
      then (send ''No access grant for pod found.'' (status (Num 403) res), False)
      else if truthyString (accessGrantExpirationDate session) \<and>
              (case accessGrantExpirationDate session of
                 None \<Rightarrow> False
               | Some d \<Rightarrow> lessNumber (getTime d) now)
      then (send ''Access grant for pod has expired.'' (status (Num 403) res), False)
      else (res, True))"

section \<open>Facts about the array operations\<close>

lemma indexOf_ge: "-1 \<le> indexOf xs x"
  by (induction xs) (auto simp: Let_def)

lemma indexOf_mem: "(indexOf xs x > -1) = (x \<in> set xs)"
  by (induction xs) (auto simp: Let_def)

lemma indexOf_take_drop:
  "x \<in> set xs \<Longrightarrow>
     nat (indexOf xs x) < length xs \<and>
     take (nat (indexOf xs x)) xs @ drop (Suc (nat (indexOf xs x))) xs = remove1 x xs"
proof (induction xs)
  case Nil
  then show ?case by simp
next
  case (Cons y ys)
  show ?case
  proof (cases "y = x")
    case True
    then show ?thesis by simp
  next
    case False
    with Cons.prems have mem: "x \<in> set ys" by simp
    then have pos: "0 \<le> indexOf ys x" using indexOf_mem [of ys x] by simp
    from Cons.IH [OF mem] pos False show ?thesis
      by (simp add: Let_def nat_add_distrib)
  qed
qed

lemma splice1_indexOf:
  assumes "x \<in> set xs"
  shows "splice1 xs (indexOf xs x) = remove1 x xs"
proof -
  have pos: "0 \<le> indexOf xs x" using assms indexOf_mem [of xs x] by simp
  have lt: "indexOf xs x < int (length xs)" using indexOf_take_drop [OF assms] pos by linarith
  show ?thesis using pos lt indexOf_take_drop [OF assms]
    by (simp add: splice1_def Let_def min_def)
qed

lemma splice1_missing: "x \<notin> set xs \<Longrightarrow> splice1 xs (indexOf xs x) = butlast xs"
proof -
  assume "x \<notin> set xs"
  then have "indexOf xs x = -1" using indexOf_mem [of xs x] indexOf_ge [of xs x] by linarith
  then show ?thesis
    by (cases xs rule: rev_cases) (auto simp: splice1_def Let_def max_def butlast_conv_take)
qed

section \<open>The invariant of the session module\<close>

lemma subjectNext_fields:
  "refreshingSessions (subjectNext v s) = refreshingSessions s"
  "awaiting (subjectNext v s) = awaiting s"
  "fetches (subjectNext v s) = fetches s"
  "nextCall (subjectNext v s) = nextCall s"
  "emissions (subjectNext v s) = emissions s @ [v]"
  "observers (subjectNext v s) = filter (\<lambda>(k, sid). \<not> sessionFilter sid v) (observers s)"
  "settled (subjectNext v s) = settled s @
     map (\<lambda>(k, sid). (k, followerResume v))
       (filter (\<lambda>(k, sid). sessionFilter sid v) (observers s))"
  by (simp_all add: subjectNext_def)

lemma fst_resumed: "map fst (map (\<lambda>(k, sid). (k, c)) xs) = map fst xs"
  by (induction xs) auto

lemma coherent_init: "coherent init"
  by (simp add: coherent_def callIds_def init_def)

lemma split_observers:
  assumes "distinct (map fst xs)"
  shows "distinct (map fst (filter P xs) @ map fst (filter (\<lambda>x. \<not> P x) xs)) \<and>
         set (map fst (filter P xs)) \<union> set (map fst (filter (\<lambda>x. \<not> P x) xs)) = set (map fst xs)"
  using assms by (induction xs) auto

lemma distinct_move:
  assumes "distinct (S @ A @ Obs)" and "distinct (P @ N)" and "set P \<union> set N = set Obs"
  shows "distinct ((S @ P) @ A @ N)"
proof -
  have "set P \<subseteq> set Obs" "set N \<subseteq> set Obs" using assms(3) by auto
  then show ?thesis using assms(1,2) by (simp add: disjoint_iff subset_iff) blast
qed

lemma set_filter_split: "set (map f (filter P xs)) \<union> set (map f (filter (\<lambda>x. \<not> P x) xs)) = set (map f xs)"
  by (induction xs) auto

lemma set_callIds_subjectNext: "set (callIds (subjectNext v s)) = set (callIds s)"
proof -
  note subjectNext_fields [simp]
  let ?P = "\<lambda>(k, sid). sessionFilter sid v"
  have neg: "(\<lambda>(k, sid). \<not> sessionFilter sid v) = (\<lambda>x. \<not> ?P x)" by auto
  have "set (callIds (subjectNext v s)) =
          set (map fst (settled s)) \<union> set (map fst (awaiting s)) \<union>
          (set (map fst (filter ?P (observers s))) \<union>
           set (map fst (filter (\<lambda>x. \<not> ?P x) (observers s))))"
    unfolding callIds_def subjectNext_fields neg by (simp only: fst_resumed map_append set_append) blast
  also have "\<dots> = set (callIds s)"
    unfolding set_filter_split callIds_def by (simp only: set_append) blast
  finally show ?thesis .
qed

lemma distinct_callIds_subjectNext:
  assumes "distinct (callIds s)"
  shows "distinct (callIds (subjectNext v s))"
proof -
  let ?P = "\<lambda>(k, sid). sessionFilter sid v"
  have neg: "(\<lambda>(k, sid). \<not> sessionFilter sid v) = (\<lambda>x. \<not> ?P x)" by auto
  have d: "distinct (map fst (observers s))" using assms by (simp add: callIds_def)
  note sp = split_observers [OF d, of ?P]
  show ?thesis
    using distinct_move [of "map fst (settled s)" "map fst (awaiting s)" "map fst (observers s)"
            "map fst (filter ?P (observers s))" "map fst (filter (\<lambda>x. \<not> ?P x) (observers s))"]
          sp assms
    unfolding callIds_def by (simp only: subjectNext_fields neg fst_resumed map_append)
qed

lemma coherent_subjectNext:
  assumes "coherent s"
  shows "coherent (subjectNext v s)"
  using assms distinct_callIds_subjectNext [of s v] set_callIds_subjectNext [of v s]
  by (simp add: coherent_def list_all_iff subjectNext_fields)

lemma coherent_wrapperCall:
  assumes "coherent s"
  shows "coherent (wrapperCall sid storage s)"
proof (cases "sid \<in> set (refreshingSessions s)")
  case True
  then have "wrapperCall sid storage s =
      s\<lparr>observers := observers s @ [(nextCall s, sid)], nextCall := Suc (nextCall s)\<rparr>"
    by (simp add: wrapperCall_def indexOf_mem)
  then show ?thesis using assms
    by (auto simp: coherent_def callIds_def list_all_iff intro: less_SucI)
next
  case False
  then have "wrapperCall sid storage s =
      s\<lparr>refreshingSessions := refreshingSessions s @ [sid],
        fetches := fetches s @ [(sid, storage)],
        awaiting := awaiting s @ [(nextCall s, sid)],
        nextCall := Suc (nextCall s)\<rparr>"
    by (simp add: wrapperCall_def indexOf_mem)
  then show ?thesis using assms False
    by (auto simp: coherent_def callIds_def list_all_iff intro: less_SucI)
qed

lemma sessionFilter_Nullish [simp]: "filter (\<lambda>(k, sid). \<not> sessionFilter sid Nullish) xs = xs"
  "filter (\<lambda>(k, sid). sessionFilter sid Nullish) xs = []"
  by (induction xs) auto

lemma wrapperResume_fields:
  "refreshingSessions (wrapperResume k sid r s) =
     splice1 (refreshingSessions s) (indexOf (refreshingSessions s) sid)"
  "awaiting (wrapperResume k sid r s) = awaiting s"
  "fetches (wrapperResume k sid r s) = fetches s"
  "nextCall (wrapperResume k sid r s) = nextCall s"
  "emissions (wrapperResume k sid r s) = emissions s @ [notification sid r, Nullish]"
  "observers (wrapperResume k sid r s) =
     filter (\<lambda>(j, i). \<not> sessionFilter i (notification sid r)) (observers s)"
  "settled (wrapperResume k sid r s) =
     settled s @
     map (\<lambda>(j, i). (j, followerResume (notification sid r)))
       (filter (\<lambda>(j, i). sessionFilter i (notification sid r)) (observers s)) @
     [(k, Returned (leaderReturn r))]"
  by (cases r; simp add: Let_def subjectNext_fields)+

lemma filter_awaiting:
  assumes "distinct (map fst A)" and "distinct (map snd A)" and "map_of A k = Some sid"
  shows "map snd (filter (\<lambda>(j, i). j \<noteq> k) A) = remove1 sid (map snd A)"
  using assms
proof (induction A)
  case Nil
  then show ?case by simp
next
  case (Cons a A)
  obtain j i where a: "a = (j, i)" by (cases a)
  show ?case
  proof (cases "j = k")
    case True
    with Cons.prems a have "i = sid" by simp
    moreover have "filter (\<lambda>(j, i). j \<noteq> k) A = A"
      using Cons.prems(1) a True by (auto simp: filter_id_conv image_iff)
    ultimately show ?thesis using a True by simp
  next
    case False
    with Cons.prems a have m: "map_of A k = Some sid" by simp
    then have "(k, sid) \<in> set A" by (rule map_of_SomeD)
    then have "i \<noteq> sid" using Cons.prems(2) a by (auto simp: image_iff)
    then show ?thesis using Cons.IH Cons.prems a False m by simp
  qed
qed


lemma awaiting_lookup:
  assumes "coherent s" and "map_of (awaiting s) k = Some sid"
  shows "(k, sid) \<in> set (awaiting s)" and "sid \<in> set (refreshingSessions s)"
    and "k \<in> set (callIds s)" and "k < nextCall s"
proof -
  show m: "(k, sid) \<in> set (awaiting s)" using assms(2) by (rule map_of_SomeD)
  then show "sid \<in> set (refreshingSessions s)" using assms(1) by (force simp: coherent_def)
  from m show c: "k \<in> set (callIds s)" by (force simp: callIds_def)
  then show "k < nextCall s" using assms(1) by (simp add: coherent_def list_all_iff)
qed

lemma step_Settle_fields:
  assumes "coherent s" and "map_of (awaiting s) k = Some sid"
  shows "refreshingSessions (step (Settle k r) s) = remove1 sid (refreshingSessions s)"
    and "awaiting (step (Settle k r) s) = filter (\<lambda>(j, i). j \<noteq> k) (awaiting s)"
    and "fetches (step (Settle k r) s) = fetches s"
    and "nextCall (step (Settle k r) s) = nextCall s"
    and "emissions (step (Settle k r) s) = emissions s @ [notification sid r, Nullish]"
    and "observers (step (Settle k r) s) =
           filter (\<lambda>(j, i). \<not> sessionFilter i (notification sid r)) (observers s)"
    and "settled (step (Settle k r) s) =
           settled s @
           map (\<lambda>(j, i). (j, followerResume (notification sid r)))
             (filter (\<lambda>(j, i). sessionFilter i (notification sid r)) (observers s)) @
           [(k, Returned (leaderReturn r))]"
  using assms awaiting_lookup(2) [OF assms]
  by (simp_all add: wrapperResume_fields splice1_indexOf)

lemma coherent_Settle:
  assumes "coherent s"
  shows "coherent (step (Settle k r) s)"
proof (cases "map_of (awaiting s) k")
  case None
  then show ?thesis using assms by simp
next
  case (Some sid)
  let ?t = "step (Settle k r) s"
  let ?s0 = "s\<lparr>awaiting := filter (\<lambda>(j, i). j \<noteq> k) (awaiting s)\<rparr>"
  let ?u = "subjectNext (notification sid r) ?s0"
  note f = step_Settle_fields [OF assms Some, of r]
  note l = awaiting_lookup [OF assms Some]
  have dA: "distinct (map fst (awaiting s))" and dS: "distinct (map snd (awaiting s))"
    using assms by (simp_all add: coherent_def callIds_def)
  have 1: "refreshingSessions ?t = map snd (awaiting ?t)"
    using filter_awaiting [OF dA dS Some] assms by (simp only: f) (simp add: coherent_def)
  have 2: "distinct (map snd (awaiting ?t))"
    using dS by (simp only: f distinct_map_filter)
  have d0: "distinct (callIds ?s0)"
    using assms by (simp add: coherent_def callIds_def distinct_map_filter) blast
  have kA: "k \<in> fst ` set (awaiting s)" using l(1) by force
  have "fst ` set (awaiting s) \<inter> fst ` set (observers s) = {}"
    and "fst ` set (settled s) \<inter> (fst ` set (awaiting s) \<union> fst ` set (observers s)) = {}"
    using assms by (simp_all add: coherent_def callIds_def)
  with kA have "k \<notin> fst ` set (settled s)" and "k \<notin> fst ` set (observers s)" by blast+
  then have k0: "k \<notin> set (callIds ?s0)"
    by (auto simp: callIds_def)
  have sub0: "set (callIds ?s0) \<subseteq> set (callIds s)"
    by (auto simp: callIds_def)
  have du: "distinct (callIds ?u)" using d0 by (rule distinct_callIds_subjectNext)
  have su: "set (callIds ?u) = set (callIds ?s0)" by (rule set_callIds_subjectNext)
  define S' where "S' = map fst (settled ?u)"
  define A' where "A' = map fst (awaiting ?u)"
  define O' where "O' = map fst (observers ?u)"
  have ct: "callIds ?t = (S' @ [k]) @ A' @ O'"
    unfolding callIds_def S'_def A'_def O'_def by (simp only: f) (simp add: subjectNext_fields)
  have cu: "callIds ?u = S' @ A' @ O'"
    by (simp only: callIds_def S'_def A'_def O'_def)
  have ku: "k \<notin> set (callIds ?u)" using k0 su by simp
  have 3: "distinct (callIds ?t)"
    using du ku unfolding ct cu by auto
  have st: "set (callIds ?t) = insert k (set (callIds ?u))"
    unfolding ct cu by auto
  have bound: "\<forall>j\<in>set (callIds s). j < nextCall s"
    using assms by (simp add: coherent_def list_all_iff)
  have 4: "list_all (\<lambda>j. j < nextCall ?t) (callIds ?t)"
    unfolding list_all_iff st su f(4) using bound l(3) sub0 by blast
  show ?thesis using 1 2 3 4 by (simp only: coherent_def)
qed

lemma coherent_step: "coherent s \<Longrightarrow> coherent (step e s)"
  by (cases e) (simp_all only: step.simps(1) coherent_wrapperCall coherent_Settle)

lemma coherent_run: "coherent s \<Longrightarrow> coherent (run es s)"
  by (induction es arbitrary: s) (simp_all add: coherent_step del: step.simps)

lemma coherent_reachable: "coherent (run es init)"
  by (rule coherent_run [OF coherent_init])

section \<open>Properties of the session module\<close>

lemma step_Call_leader:
  assumes "sid \<notin> set (refreshingSessions s)"
  shows "step (Call sid storage) s =
           s\<lparr>refreshingSessions := refreshingSessions s @ [sid],
             fetches := fetches s @ [(sid, storage)],
             awaiting := awaiting s @ [(nextCall s, sid)],
             nextCall := Suc (nextCall s)\<rparr>"
  using assms by (simp add: wrapperCall_def indexOf_mem)

lemma step_Call_follower:
  assumes "sid \<in> set (refreshingSessions s)"
  shows "step (Call sid storage) s =
           s\<lparr>observers := observers s @ [(nextCall s, sid)], nextCall := Suc (nextCall s)\<rparr>"
  using assms by (simp add: wrapperCall_def indexOf_mem)

lemma in_flight_iff:
  assumes "coherent s"
  shows "sid \<in> set (refreshingSessions s) \<longleftrightarrow> (\<exists>k. (k, sid) \<in> set (awaiting s))"
  using assms by (force simp: coherent_def)

lemma distinct_count_le1: "distinct xs \<Longrightarrow> length (filter (\<lambda>y. y = x) xs) \<le> 1"
  by (induction xs) (auto simp: filter_empty_conv)

text \<open>
  Claim C2. In every state the module can reach, \<^verbatim>\<open>refreshingSessions\<close> holds each
  session identifier at most once, and holds it exactly while a fetch for it is in
  flight. A call for an identifier that is not in the array (the leader) appends it,
  before the fetch is awaited; a call for an identifier that is in the array does not
  touch the array. When the leader's fetch settles, with any result (a session, no
  session, or a failure) and any number of observers waiting, the one entry is removed
  and the identifier is no longer in the array.
\<close>

theorem in_flight_set_entries:
  assumes "s = run es init"
  shows "distinct (refreshingSessions s) \<and>
         length (filter (\<lambda>i. i = sid) (refreshingSessions s)) \<le> 1 \<and>
         (sid \<in> set (refreshingSessions s) \<longleftrightarrow> (\<exists>j. (j, sid) \<in> set (awaiting s))) \<and>
         (sid \<notin> set (refreshingSessions s) \<longrightarrow>
            refreshingSessions (step (Call sid storage) s) = refreshingSessions s @ [sid] \<and>
            awaiting (step (Call sid storage) s) = awaiting s @ [(nextCall s, sid)]) \<and>
         (sid \<in> set (refreshingSessions s) \<longrightarrow>
            refreshingSessions (step (Call sid storage) s) = refreshingSessions s \<and>
            awaiting (step (Call sid storage) s) = awaiting s) \<and>
         (map_of (awaiting s) k = Some sid \<longrightarrow>
            sid \<in> set (refreshingSessions s) \<and>
            refreshingSessions (step (Settle k r) s) = remove1 sid (refreshingSessions s) \<and>
            sid \<notin> set (refreshingSessions (step (Settle k r) s))) \<and>
         (map_of (awaiting s) k = None \<longrightarrow>
            refreshingSessions (step (Settle k r) s) = refreshingSessions s)"
proof -
  have c: "coherent s" unfolding assms by (rule coherent_reachable)
  then have d: "distinct (refreshingSessions s)" by (simp add: coherent_def)
  have settle: "sid \<in> set (refreshingSessions s) \<and>
            refreshingSessions (step (Settle k r) s) = remove1 sid (refreshingSessions s) \<and>
            sid \<notin> set (refreshingSessions (step (Settle k r) s))"
    if m: "map_of (awaiting s) k = Some sid"
    using awaiting_lookup(2) [OF c m] step_Settle_fields(1) [OF c m, of r] d by simp
  show ?thesis
    using d distinct_count_le1 [OF d, of sid] in_flight_iff [OF c, of sid] settle
    by (simp add: step_Call_leader step_Call_follower del: step.simps) simp
qed

theorem in_flight_set_entries_witness:
  "distinct (refreshingSessions (run [Call ''a'' None, Call ''a'' None, Call ''b'' None] init)) \<and>
   refreshingSessions (step (Settle 0 (Rejected ''down''))
       (run [Call ''a'' None, Call ''a'' None, Call ''b'' None] init)) =
     remove1 ''a'' (refreshingSessions (run [Call ''a'' None, Call ''a'' None, Call ''b'' None] init)) \<and>
   refreshingSessions (run [Call ''a'' None, Call ''a'' None, Call ''b'' None] init) = [''a'', ''b''] \<and>
   map_of (awaiting (run [Call ''a'' None, Call ''a'' None, Call ''b'' None] init)) 0 = Some ''a''"
proof -
  have m: "map_of (awaiting (run [Call ''a'' None, Call ''a'' None, Call ''b'' None] init)) 0 = Some ''a''"
    by (simp add: init_def wrapperCall_def)
  have r: "refreshingSessions (run [Call ''a'' None, Call ''a'' None, Call ''b'' None] init) = [''a'', ''b'']"
    by (simp add: init_def wrapperCall_def)
  show ?thesis
    using in_flight_set_entries [OF refl, of "[Call ''a'' None, Call ''a'' None, Call ''b'' None]" "''a''"
            None 0 "Rejected ''down''"] m r
    by (simp del: run.simps step.simps)
qed


lemma in_flight_kept:
  assumes c: "coherent u" and a: "(k, sid) \<in> set (awaiting u)" and n: "\<not> settles k e"
  shows "(k, sid) \<in> set (awaiting (step e u)) \<and> fetchCount sid (step e u) = fetchCount sid u"
proof (cases e)
  case (Call i storage)
  have inflight: "sid \<in> set (refreshingSessions u)"
    using in_flight_iff [OF c, of sid] a by blast
  show ?thesis
  proof (cases "i \<in> set (refreshingSessions u)")
    case True
    then show ?thesis using a Call
      by (simp add: step_Call_follower fetchCount_def del: step.simps)
  next
    case False
    then have "i \<noteq> sid" using inflight by blast
    then show ?thesis using a Call False
      by (simp add: step_Call_leader fetchCount_def del: step.simps)
  qed
next
  case (Settle j r)
  then have jk: "j \<noteq> k" using n by simp
  show ?thesis
  proof (cases "map_of (awaiting u) j")
    case None
    then show ?thesis using a Settle by simp
  next
    case (Some i)
    show ?thesis
      using a jk Settle step_Settle_fields(2,3) [OF c Some, of r]
      by (simp add: fetchCount_def del: step.simps)
  qed
qed

lemma in_flight_run:
  assumes "coherent u" and "(k, sid) \<in> set (awaiting u)" and "\<forall>e\<in>set es. \<not> settles k e"
  shows "coherent (run es u) \<and> (k, sid) \<in> set (awaiting (run es u)) \<and>
         fetchCount sid (run es u) = fetchCount sid u"
  using assms
proof (induction es arbitrary: u)
  case Nil
  then show ?case by simp
next
  case (Cons e es)
  have k: "(k, sid) \<in> set (awaiting (step e u)) \<and> fetchCount sid (step e u) = fetchCount sid u"
    using in_flight_kept [OF Cons.prems(1,2), of e] Cons.prems(3) by simp
  have c: "coherent (step e u)" using Cons.prems(1) by (rule coherent_step)
  have "coherent (run es (step e u)) \<and> (k, sid) \<in> set (awaiting (run es (step e u))) \<and>
         fetchCount sid (run es (step e u)) = fetchCount sid (step e u)"
    using Cons.IH [OF c] k Cons.prems(3) by simp
  then show ?case using k by simp
qed

text \<open>
  Claim C1. Take any reachable state in which no fetch for \<open>sid\<close> is in flight, a call
  for \<open>sid\<close>, and any events whatever after it (calls for this and other identifiers,
  other fetches settling) as long as the fetch of that first call has not settled. Then
  \<^verbatim>\<open>getSessionFromStorage\<close> has been invoked for \<open>sid\<close> exactly once more, by that first
  call (the leader), whose fetch is the only one in flight for \<open>sid\<close>; and every later
  call for \<open>sid\<close> among the events invoked no fetch and subscribed to the subject
  instead.
\<close>

theorem one_fetch_per_cycle:
  assumes "s = run es init"
    and "sid \<notin> set (refreshingSessions s)"
    and "\<forall>e\<in>set later. \<not> settles (nextCall s) e"
  shows "fetchCount sid (run (Call sid storage # later) s) = Suc (fetchCount sid s) \<and>
         (nextCall s, sid) \<in> set (awaiting (run (Call sid storage # later) s)) \<and>
         length (filter (\<lambda>(j, i). i = sid) (awaiting (run (Call sid storage # later) s))) = 1 \<and>
         (\<forall>pre storage' post. later = pre @ Call sid storage' # post \<longrightarrow>
            fetches (step (Call sid storage') (run (Call sid storage # pre) s)) =
              fetches (run (Call sid storage # pre) s) \<and>
            observers (step (Call sid storage') (run (Call sid storage # pre) s)) =
              observers (run (Call sid storage # pre) s) @
                [(nextCall (run (Call sid storage # pre) s), sid)])"
proof -
  let ?k = "nextCall s"
  let ?s1 = "step (Call sid storage) s"
  have c: "coherent s" unfolding assms(1) by (rule coherent_reachable)
  have c1: "coherent ?s1" using c by (rule coherent_step)
  have a1: "(?k, sid) \<in> set (awaiting ?s1)"
    using assms(2) by (simp add: step_Call_leader del: step.simps)
  have f1: "fetchCount sid ?s1 = Suc (fetchCount sid s)"
    using assms(2) by (simp add: step_Call_leader fetchCount_def del: step.simps)
  note whole = in_flight_run [OF c1 a1 assms(3)]
  have 1: "fetchCount sid (run (Call sid storage # later) s) = Suc (fetchCount sid s)"
    using whole f1 by simp
  have 2: "(?k, sid) \<in> set (awaiting (run (Call sid storage # later) s))"
    using whole by simp
  have "distinct (map snd (awaiting (run (Call sid storage # later) s)))"
    using whole by (simp add: coherent_def)
  then have "length (filter (\<lambda>i. i = sid) (map snd (awaiting (run (Call sid storage # later) s)))) \<le> 1"
    by (rule distinct_count_le1)
  moreover have "length (filter (\<lambda>i. i = sid) (map snd (awaiting (run (Call sid storage # later) s)))) \<noteq> 0"
    using 2 by (force simp: filter_empty_conv)
  moreover have "filter (\<lambda>i. i = sid) (map snd xs) = map snd (filter (\<lambda>(j, i). i = sid) xs)"
    for xs :: "(nat \<times> string) list"
    by (induction xs) auto
  ultimately have 3: "length (filter (\<lambda>(j, i). i = sid) (awaiting (run (Call sid storage # later) s))) = 1"
    by (cases "filter (\<lambda>(j, i). i = sid) (awaiting (run (Call sid storage # later) s))") simp_all
  have 4: "fetches (step (Call sid storage') (run (Call sid storage # pre) s)) =
              fetches (run (Call sid storage # pre) s) \<and>
            observers (step (Call sid storage') (run (Call sid storage # pre) s)) =
              observers (run (Call sid storage # pre) s) @
                [(nextCall (run (Call sid storage # pre) s), sid)]"
    if split: "later = pre @ Call sid storage' # post" for pre storage' post
  proof -
    have "\<forall>e\<in>set pre. \<not> settles ?k e" using assms(3) split by simp
    from in_flight_run [OF c1 a1 this]
    have cp: "coherent (run pre ?s1)" and ap: "(?k, sid) \<in> set (awaiting (run pre ?s1))"
      by simp_all
    have "sid \<in> set (refreshingSessions (run pre ?s1))"
      using in_flight_iff [OF cp, of sid] ap by blast
    then show ?thesis
      by (simp add: step_Call_follower del: step.simps)
  qed
  show ?thesis using 1 2 3 4 by blast
qed


theorem one_fetch_per_cycle_witness:
  "fetchCount ''s2'' (run [Call ''s2'' None, Call ''s2'' None, Call ''s2'' None] init) =
     Suc (fetchCount ''s2'' init) \<and>
   (nextCall init, ''s2'') \<in>
     set (awaiting (run [Call ''s2'' None, Call ''s2'' None, Call ''s2'' None] init)) \<and>
   fetches (run [Call ''s2'' None, Call ''s2'' None, Call ''s2'' None] init) = [(''s2'', None)] \<and>
   observers (run [Call ''s2'' None, Call ''s2'' None, Call ''s2'' None] init) =
     [(1, ''s2''), (2, ''s2'')]"
proof -
  have h1: "init = run [] init" by simp
  have h2: "''s2'' \<notin> set (refreshingSessions init)" by (simp add: init_def)
  have h3: "\<forall>e\<in>set [Call ''s2'' None, Call ''s2'' None]. \<not> settles (nextCall init) e" by simp
  have e: "fetches (run [Call ''s2'' None, Call ''s2'' None, Call ''s2'' None] init) = [(''s2'', None)]"
    "observers (run [Call ''s2'' None, Call ''s2'' None, Call ''s2'' None] init) =
       [(1, ''s2''), (2, ''s2'')]"
    by (simp_all add: init_def wrapperCall_def)
  show ?thesis
    using one_fetch_per_cycle [OF h1 h2 h3, of None] e by (simp del: run.simps step.simps)
qed

lemma settled_lookup:
  assumes "coherent t" and "(j, out) \<in> set (settled t)"
  shows "map_of (settled t) j = Some out"
proof -
  have "distinct (map fst (settled t))" using assms(1) by (simp add: coherent_def callIds_def)
  then show ?thesis using assms(2) by (rule map_of_is_SomeI)
qed

text \<open>
  Claim C4. When the leader's fetch is rejected, the leader's call returns \<^verbatim>\<open>null\<close>
  (the error of the backing store reaches nobody), and the call of every observer that
  waits for the same identifier throws an \<^verbatim>\<open>Error\<close> whose message is the identifier.
  These are exactly the calls that settle in this step, and none of them had settled
  before.
\<close>

theorem failure_leader_null_followers_throw:
  assumes "s = run es init" and "map_of (awaiting s) k = Some sid"
  shows "map_of (settled (step (Settle k (Rejected e)) s)) k = Some (Returned None) \<and>
         (\<forall>j. (j, sid) \<in> set (observers s) \<longrightarrow>
            map_of (settled (step (Settle k (Rejected e)) s)) j = Some (Threw sid)) \<and>
         settled (step (Settle k (Rejected e)) s) =
           settled s @
           map (\<lambda>(j, i). (j, Threw sid)) (filter (\<lambda>(j, i). i = sid) (observers s)) @
           [(k, Returned None)] \<and>
         map_of (settled s) k = None \<and>
         (\<forall>j. (j, sid) \<in> set (observers s) \<longrightarrow> map_of (settled s) j = None)"
proof -
  let ?t = "step (Settle k (Rejected e)) s"
  have c: "coherent s" unfolding assms(1) by (rule coherent_reachable)
  have ct: "coherent ?t" using c by (rule coherent_step)
  have st: "settled ?t =
           settled s @
           map (\<lambda>(j, i). (j, Threw sid)) (filter (\<lambda>(j, i). i = sid) (observers s)) @
           [(k, Returned None)]"
    using step_Settle_fields(7) [OF c assms(2), of "Rejected e"]
    by (simp add: eq_commute [of _ sid])
  have 1: "map_of (settled ?t) k = Some (Returned None)"
    by (rule settled_lookup [OF ct]) (simp only: st, simp)
  have 2: "map_of (settled ?t) j = Some (Threw sid)" if "(j, sid) \<in> set (observers s)" for j
    by (rule settled_lookup [OF ct]) (use that in \<open>simp only: st, force\<close>)
  have disj: "set (map fst (settled s)) \<inter> (set (map fst (awaiting s)) \<union> set (map fst (observers s))) = {}"
    using c by (simp add: coherent_def callIds_def)
  have "k \<in> set (map fst (awaiting s))"
    using awaiting_lookup(1) [OF c assms(2)] by force
  then have 3: "map_of (settled s) k = None"
    using disj by (simp only: map_of_eq_None_iff set_map) blast
  have 4: "map_of (settled s) j = None" if "(j, sid) \<in> set (observers s)" for j
  proof -
    have "j \<in> set (map fst (observers s))" using that by force
    then show ?thesis using disj by (simp only: map_of_eq_None_iff set_map) blast
  qed
  show ?thesis using 1 2 st 3 4 by blast
qed

theorem failure_leader_null_followers_throw_witness:
  "map_of (awaiting (run [Call ''s3'' None, Call ''s3'' None] init)) 0 = Some ''s3'' \<and>
   observers (run [Call ''s3'' None, Call ''s3'' None] init) = [(1, ''s3'')] \<and>
   map_of (settled (step (Settle 0 (Rejected ''storage down''))
                     (run [Call ''s3'' None, Call ''s3'' None] init))) 0 = Some (Returned None) \<and>
   map_of (settled (step (Settle 0 (Rejected ''storage down''))
                     (run [Call ''s3'' None, Call ''s3'' None] init))) 1 = Some (Threw ''s3'')"
proof -
  have m: "map_of (awaiting (run [Call ''s3'' None, Call ''s3'' None] init)) 0 = Some ''s3''"
    by (simp add: init_def wrapperCall_def)
  have ob: "observers (run [Call ''s3'' None, Call ''s3'' None] init) = [(1, ''s3'')]"
    by (simp add: init_def wrapperCall_def)
  note t = failure_leader_null_followers_throw [OF refl m, of "''storage down''"]
  have l: "map_of (settled (step (Settle 0 (Rejected ''storage down''))
                     (run [Call ''s3'' None, Call ''s3'' None] init))) 0 = Some (Returned None)"
    using t by (rule conjunct1)
  have f: "map_of (settled (step (Settle 0 (Rejected ''storage down''))
                     (run [Call ''s3'' None, Call ''s3'' None] init))) 1 = Some (Threw ''s3'')"
    using conjunct1 [OF conjunct2 [OF t]] unfolding ob by simp
  show ?thesis using m ob l f by (simp only: simp_thms)
qed

lemma step_Call_emissions: "emissions (step (Call sid storage) s) = emissions s"
  by (simp add: wrapperCall_def)

lemma not_awaiting_after_Settle:
  assumes "coherent s" and "map_of (awaiting s) k = Some sid"
  shows "map_of (awaiting (step (Settle k r) s)) k = None"
proof -
  have "k \<notin> fst ` set (filter (\<lambda>(j, i). j \<noteq> k) (awaiting s))" by auto
  then show ?thesis
    by (simp only: step_Settle_fields(2) [OF assms] map_of_eq_None_iff) simp
qed

text \<open>
  Claim C6. A fetch cycle puts exactly two values on \<^verbatim>\<open>refreshedSubject\<close>, one right
  after the other, when its fetch settles: first the result (an \<^verbatim>\<open>Error\<close> whose message
  is the session identifier after a rejection, the fetched session after a fulfilment,
  which is the nullish value when no session was found), then \<^verbatim>\<open>null\<close>. The cycle emits
  nothing else: the call that starts it emits nothing, and once the fetch has settled
  no further settling of that call changes the log. A settling that belongs to no
  awaited fetch emits nothing.
\<close>

theorem cycle_emits_result_then_reset:
  assumes "s = run es init" and "map_of (awaiting s) k = Some sid"
  shows "emissions (step (Settle k (Rejected e)) s) = emissions s @ [Err sid, Nullish] \<and>
         emissions (step (Settle k (Resolved (Some x))) s) = emissions s @ [Sess x, Nullish] \<and>
         emissions (step (Settle k (Resolved None)) s) = emissions s @ [Nullish, Nullish] \<and>
         emissions (step (Call sid' storage) s) = emissions s \<and>
         emissions (step (Settle k r') (step (Settle k r) s)) = emissions (step (Settle k r) s) \<and>
         (\<forall>j. map_of (awaiting s) j = None \<longrightarrow> emissions (step (Settle j r) s) = emissions s)"
proof -
  have c: "coherent s" unfolding assms(1) by (rule coherent_reachable)
  note f = step_Settle_fields(5) [OF c assms(2)]
  have again: "step (Settle k r') (step (Settle k r) s) = step (Settle k r) s"
    using not_awaiting_after_Settle [OF c assms(2), of r] by (simp del: step.simps add: step.simps(2) [of k r'])
  show ?thesis
    using f [of "Rejected e"] f [of "Resolved (Some x)"] f [of "Resolved None"] again
    by (simp add: step_Call_emissions del: step.simps) simp
qed


theorem cycle_emits_result_then_reset_witness:
  "map_of (awaiting (run [Call ''s1'' None] init)) 0 = Some ''s1'' \<and>
   emissions (run [Call ''s1'' None] init) = [] \<and>
   emissions (step (Settle 0 (Rejected ''storage down'')) (run [Call ''s1'' None] init)) =
     emissions (run [Call ''s1'' None] init) @ [Err ''s1'', Nullish]"
proof -
  have m: "map_of (awaiting (run [Call ''s1'' None] init)) 0 = Some ''s1''"
    by (simp add: init_def wrapperCall_def)
  have e: "emissions (run [Call ''s1'' None] init) = []"
    by (simp add: init_def wrapperCall_def)
  note t = cycle_emits_result_then_reset [OF refl m, of "''storage down''"]
  show ?thesis using m e conjunct1 [OF t] by (simp only: simp_thms)
qed

lemma step_Settle_fetches: "fetches (step (Settle k r) s) = fetches s"
  by (cases "map_of (awaiting s) k") (simp_all add: wrapperResume_fields)

lemma leader_again:
  assumes c: "coherent s" and m: "map_of (awaiting s) k = Some sid"
  shows "sid \<notin> set (refreshingSessions (step (Settle k r) s))"
    and "fetches (step (Call sid storage) (step (Settle k r) s)) = fetches s @ [(sid, storage)]"
    and "awaiting (step (Call sid storage) (step (Settle k r) s)) =
           awaiting (step (Settle k r) s) @ [(nextCall s, sid)]"
    and "observers (step (Call sid storage) (step (Settle k r) s)) =
           observers (step (Settle k r) s)"
proof -
  let ?t = "step (Settle k r) s"
  have d: "distinct (refreshingSessions s)" using c by (simp add: coherent_def)
  show gone: "sid \<notin> set (refreshingSessions ?t)"
    using d by (simp only: step_Settle_fields(1) [OF c m]) simp
  note l = step_Call_leader [OF gone, of storage] step_Settle_fields(3,4) [OF c m, of r]
  show "fetches (step (Call sid storage) ?t) = fetches s @ [(sid, storage)]"
    using l by (simp del: step.simps)
  show "awaiting (step (Call sid storage) ?t) = awaiting ?t @ [(nextCall s, sid)]"
    using l by (simp del: step.simps)
  show "observers (step (Call sid storage) ?t) = observers ?t"
    using l by (simp del: step.simps)
qed

text \<open>
  Claim C7. After the fetch of a cycle has settled, with any result (a session, no
  session, a failure), its identifier is not in \<^verbatim>\<open>refreshingSessions\<close>; so the next
  call with that identifier takes the leader path: it invokes
  \<^verbatim>\<open>getSessionFromStorage\<close> again, awaits that fetch and does not subscribe. Two calls
  with one identifier, the second made after the first has settled, invoke the backing
  store twice.
\<close>

theorem fresh_fetch_after_cycle:
  assumes "s = run es init" and "map_of (awaiting s) k = Some sid"
  shows "sid \<notin> set (refreshingSessions (step (Settle k r) s)) \<and>
         fetches (step (Call sid storage) (step (Settle k r) s)) = fetches s @ [(sid, storage)] \<and>
         awaiting (step (Call sid storage) (step (Settle k r) s)) =
           awaiting (step (Settle k r) s) @ [(nextCall s, sid)] \<and>
         observers (step (Call sid storage) (step (Settle k r) s)) =
           observers (step (Settle k r) s) \<and>
         fetches (run [Call i a, Settle 0 r1, Call i b, Settle 1 r2] init) = [(i, a), (i, b)]"
proof -
  have c: "coherent s" unfolding assms(1) by (rule coherent_reachable)
  let ?s1 = "run [Call i a] init"
  have c1: "coherent ?s1" by (rule coherent_reachable)
  have m1: "map_of (awaiting ?s1) 0 = Some i" by (simp add: init_def wrapperCall_def)
  have f1: "fetches ?s1 = [(i, a)]" by (simp add: init_def wrapperCall_def)
  have "fetches (run [Call i a, Settle 0 r1, Call i b, Settle 1 r2] init) =
          fetches (step (Settle 1 r2) (step (Call i b) (step (Settle 0 r1) ?s1)))"
    by (simp del: step.simps)
  also have "\<dots> = fetches (step (Call i b) (step (Settle 0 r1) ?s1))"
    by (rule step_Settle_fetches)
  also have "\<dots> = [(i, a), (i, b)]"
    using leader_again(2) [OF c1 m1, where r = r1 and storage = b] f1 by (simp del: step.simps run.simps)
  finally have twice: "fetches (run [Call i a, Settle 0 r1, Call i b, Settle 1 r2] init) = [(i, a), (i, b)]" .
  show ?thesis
    by (intro conjI) (rule leader_again [OF c assms(2)] twice)+
qed

theorem fresh_fetch_after_cycle_witness:
  "map_of (awaiting (run [Call ''s4'' None] init)) 0 = Some ''s4'' \<and>
   ''s4'' \<notin> set (refreshingSessions (step (Settle 0 (Resolved None)) (run [Call ''s4'' None] init))) \<and>
   fetches (step (Call ''s4'' None) (step (Settle 0 (Resolved None)) (run [Call ''s4'' None] init))) =
     fetches (run [Call ''s4'' None] init) @ [(''s4'', None)] \<and>
   fetches (run [Call ''s4'' None] init) = [(''s4'', None)]"
proof -
  have m: "map_of (awaiting (run [Call ''s4'' None] init)) 0 = Some ''s4''"
    by (simp add: init_def wrapperCall_def)
  have e: "fetches (run [Call ''s4'' None] init) = [(''s4'', None)]"
    by (simp add: init_def wrapperCall_def)
  note t = fresh_fetch_after_cycle [OF refl m, of "Resolved None" None]
  show ?thesis using m e conjunct1 [OF t] conjunct1 [OF conjunct2 [OF t]] by (simp only: simp_thms)
qed


lemma leaders_only:
  assumes "distinct (map fst calls)" and "set (map fst calls) \<inter> set (refreshingSessions s) = {}"
  shows "fetches (run (map (\<lambda>(i, storage). Call i storage) calls) s) = fetches s @ calls \<and>
         refreshingSessions (run (map (\<lambda>(i, storage). Call i storage) calls) s) =
           refreshingSessions s @ map fst calls \<and>
         map snd (awaiting (run (map (\<lambda>(i, storage). Call i storage) calls) s)) =
           map snd (awaiting s) @ map fst calls \<and>
         observers (run (map (\<lambda>(i, storage). Call i storage) calls) s) = observers s"
  using assms
proof (induction calls arbitrary: s)
  case Nil
  then show ?case by simp
next
  case (Cons c calls)
  obtain i storage where ci: "c = (i, storage)" by (cases c)
  let ?s1 = "step (Call i storage) s"
  have fresh: "i \<notin> set (refreshingSessions s)" using Cons.prems(2) ci by simp
  note s1 = step_Call_leader [OF fresh, of storage]
  have d: "distinct (map fst calls)" using Cons.prems(1) by simp
  have disj: "set (map fst calls) \<inter> set (refreshingSessions ?s1) = {}"
    using Cons.prems ci by (simp only: s1) auto
  show ?case
    using Cons.IH [OF d disj] ci by (simp only: s1) (simp add: s1 del: step.simps)
qed

lemma map_of_filter_other:
  "j \<noteq> k \<Longrightarrow> map_of (filter (\<lambda>(a, b). a \<noteq> k) xs) j = map_of xs j"
  by (induction xs) auto

text \<open>
  Claim C8. Calls with distinct identifiers, none of which has a fetch in flight, all
  take the leader path: each invokes its own fetch and none subscribes. A call
  subscribes only for its own identifier, and only when a fetch for that very identifier
  is in flight. When the fetch of one identifier settles, its call settles in that same
  step, whatever else is in flight, and the fetches of all other identifiers stay in
  flight, untouched. Time is the order of the events here: the fetches may settle in any
  order, and none needs another to have settled.
\<close>

theorem distinct_identifiers_independent:
  assumes "s = run es init"
  shows "(distinct (map fst calls) \<and> set (map fst calls) \<inter> set (refreshingSessions s) = {} \<longrightarrow>
            fetches (run (map (\<lambda>(i, storage). Call i storage) calls) s) = fetches s @ calls \<and>
            map snd (awaiting (run (map (\<lambda>(i, storage). Call i storage) calls) s)) =
              map snd (awaiting s) @ map fst calls \<and>
            observers (run (map (\<lambda>(i, storage). Call i storage) calls) s) = observers s) \<and>
         (\<forall>j i. (j, i) \<in> set (observers (step (Call sid storage) s)) \<and>
                (j, i) \<notin> set (observers s) \<longrightarrow>
                i = sid \<and> (\<exists>l. (l, sid) \<in> set (awaiting s))) \<and>
         (map_of (awaiting s) k = Some sid \<longrightarrow>
            map_of (settled (step (Settle k r) s)) k = Some (Returned (leaderReturn r)) \<and>
            awaiting (step (Settle k r) s) = filter (\<lambda>(j, i). j \<noteq> k) (awaiting s) \<and>
            (\<forall>k' sid'. sid' \<noteq> sid \<and> map_of (awaiting s) k' = Some sid' \<longrightarrow>
               map_of (awaiting (step (Settle k r) s)) k' = Some sid' \<and>
               sid' \<in> set (refreshingSessions (step (Settle k r) s))))"
proof -
  have c: "coherent s" unfolding assms(1) by (rule coherent_reachable)
  have 1: "fetches (run (map (\<lambda>(i, storage). Call i storage) calls) s) = fetches s @ calls \<and>
            map snd (awaiting (run (map (\<lambda>(i, storage). Call i storage) calls) s)) =
              map snd (awaiting s) @ map fst calls \<and>
            observers (run (map (\<lambda>(i, storage). Call i storage) calls) s) = observers s"
    if "distinct (map fst calls)" and "set (map fst calls) \<inter> set (refreshingSessions s) = {}"
    using leaders_only [OF that] by simp
  have 2: "i = sid \<and> (\<exists>l. (l, sid) \<in> set (awaiting s))"
    if "(j, i) \<in> set (observers (step (Call sid storage) s))" and "(j, i) \<notin> set (observers s)"
    for j i
  proof (cases "sid \<in> set (refreshingSessions s)")
    case True
    then show ?thesis
      using that in_flight_iff [OF c, of sid] by (simp add: step_Call_follower del: step.simps)
  next
    case False
    then show ?thesis using that by (simp add: step_Call_leader del: step.simps)
  qed
  have 3: "map_of (settled (step (Settle k r) s)) k = Some (Returned (leaderReturn r)) \<and>
            awaiting (step (Settle k r) s) = filter (\<lambda>(j, i). j \<noteq> k) (awaiting s) \<and>
            (\<forall>k' sid'. sid' \<noteq> sid \<and> map_of (awaiting s) k' = Some sid' \<longrightarrow>
               map_of (awaiting (step (Settle k r) s)) k' = Some sid' \<and>
               sid' \<in> set (refreshingSessions (step (Settle k r) s)))"
    if m: "map_of (awaiting s) k = Some sid"
  proof -
    let ?t = "step (Settle k r) s"
    note f = step_Settle_fields [OF c m, of r]
    have ct: "coherent ?t" using c by (rule coherent_step)
    have a: "map_of (settled ?t) k = Some (Returned (leaderReturn r))"
      by (rule settled_lookup [OF ct]) (simp only: f(7), simp)
    have b: "map_of (awaiting ?t) k' = Some sid' \<and> sid' \<in> set (refreshingSessions ?t)"
      if o: "sid' \<noteq> sid" "map_of (awaiting s) k' = Some sid'" for k' sid'
    proof -
      have "k' \<noteq> k" using o m by auto
      then have "map_of (awaiting ?t) k' = Some sid'"
        using o(2) by (simp only: f(2)) (simp add: map_of_filter_other)
      moreover have "sid' \<in> set (refreshingSessions ?t)"
        using awaiting_lookup(2) [OF c o(2)] o(1) by (simp only: f(1)) simp
      ultimately show ?thesis by simp
    qed
    show ?thesis using a f(2) b by blast
  qed
  show ?thesis using 1 2 3 by blast
qed


theorem distinct_identifiers_independent_witness:
  "distinct (map fst [(''s5'', None :: IStorage option), (''s6'', None)]) \<and>
   set (map fst [(''s5'', None :: IStorage option), (''s6'', None)]) \<inter> set (refreshingSessions init) = {} \<and>
   fetches (run [Call ''s5'' None, Call ''s6'' None] init) = [(''s5'', None), (''s6'', None)] \<and>
   observers (run [Call ''s5'' None, Call ''s6'' None] init) = [] \<and>
   map_of (awaiting (run [Call ''s5'' None, Call ''s6'' None] init)) 1 = Some ''s6'' \<and>
   map_of (awaiting (run [Call ''s5'' None, Call ''s6'' None] init)) 0 = Some ''s5'' \<and>
   map_of (settled (step (Settle 1 (Resolved (Some \<lparr>info = \<lparr>sessionId = ''s6'', webId = None, isLoggedIn = True\<rparr>\<rparr>)))
                     (run [Call ''s5'' None, Call ''s6'' None] init))) 1 =
     Some (Returned (Some \<lparr>info = \<lparr>sessionId = ''s6'', webId = None, isLoggedIn = True\<rparr>\<rparr>)) \<and>
   map_of (awaiting (step (Settle 1 (Resolved (Some \<lparr>info = \<lparr>sessionId = ''s6'', webId = None, isLoggedIn = True\<rparr>\<rparr>)))
                     (run [Call ''s5'' None, Call ''s6'' None] init))) 0 = Some ''s5''"
proof -
  let ?calls = "[(''s5'', None :: IStorage option), (''s6'', None)]"
  let ?s = "run [Call ''s5'' None, Call ''s6'' None] init"
  let ?r = "Resolved (Some \<lparr>info = \<lparr>sessionId = ''s6'', webId = None, isLoggedIn = True\<rparr>\<rparr>)"
  have h1: "distinct (map fst ?calls)" by simp
  have h2: "set (map fst ?calls) \<inter> set (refreshingSessions init) = {}" by (simp add: init_def)
  have m1: "map_of (awaiting ?s) 1 = Some ''s6''" by (simp add: init_def wrapperCall_def)
  have m0: "map_of (awaiting ?s) 0 = Some ''s5''" by (simp add: init_def wrapperCall_def)
  have i: "init = run [] init" by simp
  note a = distinct_identifiers_independent [OF i, where calls = ?calls]
  note b = distinct_identifiers_independent [OF refl,
      where es = "[Call ''s5'' None, Call ''s6'' None]" and k = 1 and sid = "''s6''" and r = ?r]
  have a1: "fetches (run [Call ''s5'' None, Call ''s6'' None] init) = [(''s5'', None), (''s6'', None)]"
    and a2: "observers (run [Call ''s5'' None, Call ''s6'' None] init) = []"
    using conjunct1 [OF a] h1 h2 by (simp_all add: init_def del: run.simps)
  note b3 = mp [OF conjunct2 [OF conjunct2 [OF b]] m1]
  have b1: "map_of (settled (step (Settle 1 ?r) ?s)) 1 =
              Some (Returned (Some \<lparr>info = \<lparr>sessionId = ''s6'', webId = None, isLoggedIn = True\<rparr>\<rparr>))"
    using conjunct1 [OF b3] by (simp only: leaderReturn.simps)
  have ne: "''s5'' \<noteq> ''s6''" by simp
  note b4 = spec [OF spec [OF conjunct2 [OF conjunct2 [OF b3]], of 0], of "''s5''"]
  have b2: "map_of (awaiting (step (Settle 1 ?r) ?s)) 0 = Some ''s5''"
    by (rule conjunct1 [OF mp [OF b4 conjI [OF ne m0]]])
  show ?thesis using h1 h2 a1 a2 m1 m0 b1 b2 by (simp only: simp_thms)
qed

lemma coherent_fold: "coherent s \<Longrightarrow> coherent (fold subjectNext vs s)"
  by (induction vs arbitrary: s) (simp_all add: coherent_subjectNext)

lemma observers_kept_fold:
  assumes "\<forall>w\<in>set vs. \<not> sessionFilter sid w" and "(k, sid) \<in> set (observers s)"
  shows "(k, sid) \<in> set (observers (fold subjectNext vs s))"
  using assms
proof (induction vs arbitrary: s)
  case Nil
  then show ?case by simp
next
  case (Cons v vs)
  have "(k, sid) \<in> set (observers (subjectNext v s))"
    using Cons.prems by (simp add: subjectNext_fields)
  then show ?case using Cons.IH Cons.prems(1) by simp
qed

lemma settled_grows_fold: "set (settled s) \<subseteq> set (settled (fold subjectNext vs s))"
proof (induction vs arbitrary: s)
  case Nil
  then show ?case by simp
next
  case (Cons v vs)
  have "set (settled s) \<subseteq> set (settled (subjectNext v s))"
    by (simp add: subjectNext_fields)
  then show ?case using Cons.IH [of "subjectNext v s"] by auto
qed

lemma observer_unsettled:
  assumes "coherent s" and "(k, sid) \<in> set (observers s)"
  shows "map_of (settled s) k = None"
proof -
  have "set (map fst (settled s)) \<inter> (set (map fst (awaiting s)) \<union> set (map fst (observers s))) = {}"
    using assms(1) by (simp add: coherent_def callIds_def)
  moreover have "k \<in> set (map fst (observers s))" using assms(2) by force
  ultimately show ?thesis by (simp only: map_of_eq_None_iff set_map) blast
qed

lemma settled_not_observer:
  assumes "coherent s" and "(k, out) \<in> set (settled s)"
  shows "k \<notin> fst ` set (observers s)"
proof -
  have "set (map fst (settled s)) \<inter> (set (map fst (awaiting s)) \<union> set (map fst (observers s))) = {}"
    using assms(1) by (simp add: coherent_def callIds_def)
  moreover have "k \<in> set (map fst (settled s))" using assms(2) by force
  ultimately show ?thesis by (simp only: set_map) blast
qed

text \<open>
  Claim C5. The filter of a call waiting for \<open>sid\<close> accepts a value if and only if
  the value is a session whose \<^verbatim>\<open>info.sessionId\<close> is \<open>sid\<close>, or an \<^verbatim>\<open>Error\<close> whose
  message is \<open>sid\<close>. While only other values are emitted (sessions and errors of other
  identifiers, \<^verbatim>\<open>null\<close>), the call stays subscribed and unsettled. The first accepted
  value settles the call, with that value returned or thrown, and ends the subscription;
  nothing emitted later changes the outcome.
\<close>

theorem follower_takes_first_match:
  assumes "s = run es init" and "(k, sid) \<in> set (observers s)"
  shows "(sessionFilter sid v \<longleftrightarrow> (\<exists>x. v = Sess x \<and> sessionId (info x) = sid) \<or> v = Err sid) \<and>
         ((\<forall>w\<in>set vs. \<not> sessionFilter sid w) \<longrightarrow>
            (k, sid) \<in> set (observers (fold subjectNext vs s)) \<and>
            map_of (settled (fold subjectNext vs s)) k = None) \<and>
         ((\<forall>w\<in>set vs. \<not> sessionFilter sid w) \<and> sessionFilter sid v \<longrightarrow>
            map_of (settled (fold subjectNext (vs @ v # ws) s)) k = Some (followerResume v) \<and>
            k \<notin> fst ` set (observers (fold subjectNext (vs @ v # ws) s)))"
proof -
  have c: "coherent s" unfolding assms(1) by (rule coherent_reachable)
  have 1: "sessionFilter sid v \<longleftrightarrow> (\<exists>x. v = Sess x \<and> sessionId (info x) = sid) \<or> v = Err sid"
    by (cases v) auto
  have 2: "(k, sid) \<in> set (observers (fold subjectNext vs s)) \<and>
            map_of (settled (fold subjectNext vs s)) k = None"
    if "\<forall>w\<in>set vs. \<not> sessionFilter sid w"
    using observers_kept_fold [OF that assms(2)] coherent_fold [OF c, of vs] observer_unsettled
    by blast
  have 3: "map_of (settled (fold subjectNext (vs @ v # ws) s)) k = Some (followerResume v) \<and>
            k \<notin> fst ` set (observers (fold subjectNext (vs @ v # ws) s))"
    if none: "\<forall>w\<in>set vs. \<not> sessionFilter sid w" and hit: "sessionFilter sid v"
  proof -
    let ?a = "fold subjectNext vs s"
    let ?b = "subjectNext v ?a"
    let ?c = "fold subjectNext ws ?b"
    have whole: "fold subjectNext (vs @ v # ws) s = ?c" by simp
    have "(k, sid) \<in> set (observers ?a)" by (rule observers_kept_fold [OF none assms(2)])
    then have "(k, followerResume v) \<in> set (settled ?b)"
      using hit by (force simp: subjectNext_fields)
    then have inC: "(k, followerResume v) \<in> set (settled ?c)"
      using settled_grows_fold [of ?b ws] by blast
    have cc: "coherent ?c"
      by (intro coherent_fold coherent_subjectNext c)
    show ?thesis
      unfolding whole using settled_lookup [OF cc inC] settled_not_observer [OF cc inC] by simp
  qed
  show ?thesis using 1 2 3 by blast
qed

theorem follower_takes_first_match_witness:
  "(1, ''s2'') \<in> set (observers (run [Call ''s2'' None, Call ''s2'' None] init)) \<and>
   \<not> sessionFilter ''s2'' Nullish \<and> \<not> sessionFilter ''s2'' (Err ''s9'') \<and>
   \<not> sessionFilter ''s2'' (Sess \<lparr>info = \<lparr>sessionId = ''s9'', webId = None, isLoggedIn = True\<rparr>\<rparr>) \<and>
   sessionFilter ''s2'' (Sess \<lparr>info = \<lparr>sessionId = ''s2'', webId = None, isLoggedIn = True\<rparr>\<rparr>) \<and>
   map_of (settled (fold subjectNext
       ([Nullish, Err ''s9'', Sess \<lparr>info = \<lparr>sessionId = ''s9'', webId = None, isLoggedIn = True\<rparr>\<rparr>] @
        Sess \<lparr>info = \<lparr>sessionId = ''s2'', webId = None, isLoggedIn = True\<rparr>\<rparr> # [Nullish, Err ''s2''])
       (run [Call ''s2'' None, Call ''s2'' None] init))) 1 =
     Some (Returned (Some \<lparr>info = \<lparr>sessionId = ''s2'', webId = None, isLoggedIn = True\<rparr>\<rparr>))"
proof -
  let ?s = "run [Call ''s2'' None, Call ''s2'' None] init"
  let ?x9 = "\<lparr>info = \<lparr>sessionId = ''s9'', webId = None, isLoggedIn = True\<rparr>\<rparr>"
  let ?x2 = "\<lparr>info = \<lparr>sessionId = ''s2'', webId = None, isLoggedIn = True\<rparr>\<rparr>"
  have o: "(1, ''s2'') \<in> set (observers ?s)" by (simp add: init_def wrapperCall_def)
  have n: "\<forall>w\<in>set [Nullish, Err ''s9'', Sess ?x9]. \<not> sessionFilter ''s2'' w" by simp
  have h: "sessionFilter ''s2'' (Sess ?x2)" by simp
  note t = follower_takes_first_match [OF refl o,
      where v = "Sess ?x2" and vs = "[Nullish, Err ''s9'', Sess ?x9]" and ws = "[Nullish, Err ''s2'']"]
  note r = conjunct1 [OF mp [OF conjunct2 [OF conjunct2 [OF t]] conjI [OF n h]]]
  show ?thesis using o n h r by (simp del: run.simps fold_simps append.simps)
qed

lemma followerResume_null: "followerResume v = Returned None \<Longrightarrow> v = Nullish"
  by (cases v) simp_all

lemma subscribed_never_null_step:
  assumes c: "coherent s"
    and q: "map_of (settled s) k \<noteq> Some (Returned None)"
    and a: "k \<notin> fst ` set (awaiting s)"
    and b: "k < nextCall s"
  shows "map_of (settled (step e s)) k \<noteq> Some (Returned None) \<and>
         k \<notin> fst ` set (awaiting (step e s)) \<and> k < nextCall (step e s)"
proof (cases e)
  case (Call i storage)
  show ?thesis
  proof (cases "i \<in> set (refreshingSessions s)")
    case True
    then show ?thesis using q a b Call by (simp add: step_Call_follower del: step.simps)
  next
    case False
    then show ?thesis using q a b Call by (simp add: step_Call_leader del: step.simps)
  qed
next
  case (Settle j r)
  show ?thesis
  proof (cases "map_of (awaiting s) j")
    case None
    then show ?thesis using q a b Settle by simp
  next
    case (Some i)
    let ?t = "step (Settle j r) s"
    note f = step_Settle_fields [OF c Some, of r]
    have jk: "j \<noteq> k" using awaiting_lookup(1) [OF c Some] a by force
    have "map_of (settled ?t) k \<noteq> Some (Returned None)"
    proof
      assume "map_of (settled ?t) k = Some (Returned None)"
      then have "(k, Returned None) \<in> set (settled ?t)" by (rule map_of_SomeD)
      then have "(k, Returned None) \<in> set (settled s) \<or>
          (k, Returned None) \<in> set (map (\<lambda>(j, i'). (j, followerResume (notification i r)))
             (filter (\<lambda>(j, i'). sessionFilter i' (notification i r)) (observers s))) \<or>
          (k, Returned None) = (j, Returned (leaderReturn r))"
        unfolding f(7) set_append Un_iff by (simp only: list.set insert_iff empty_iff simp_thms)
      then consider "(k, Returned None) \<in> set (settled s)"
        | "(k, Returned None) \<in> set (map (\<lambda>(j, i'). (j, followerResume (notification i r)))
             (filter (\<lambda>(j, i'). sessionFilter i' (notification i r)) (observers s)))"
        | "(k, Returned None) = (j, Returned (leaderReturn r))"
        by blast
      then show False
      proof cases
        case 1
        then show False using settled_lookup [OF c] q by blast
      next
        case 2
        then obtain i' where "sessionFilter i' (notification i r)"
          and "followerResume (notification i r) = Returned None"
          by auto
        then show False using followerResume_null by fastforce
      next
        case 3
        then show False using jk by simp
      qed
    qed
    moreover have "k \<notin> fst ` set (awaiting ?t)" using a unfolding f(2) by auto
    moreover have "k < nextCall ?t" using b unfolding f(4) .
    ultimately show ?thesis using Settle by simp
  qed
qed

lemma subscribed_never_null_run:
  assumes "coherent s"
    and "map_of (settled s) k \<noteq> Some (Returned None)"
    and "k \<notin> fst ` set (awaiting s)"
    and "k < nextCall s"
  shows "map_of (settled (run es s)) k \<noteq> Some (Returned None)"
  using assms
proof (induction es arbitrary: s)
  case Nil
  then show ?case by simp
next
  case (Cons e es)
  note st = subscribed_never_null_step [OF Cons.prems, of e]
  have c: "coherent (step e s)" using Cons.prems(1) by (rule coherent_step)
  show ?case
    using Cons.IH [OF c conjunct1 [OF st] conjunct1 [OF conjunct2 [OF st]] conjunct2 [OF conjunct2 [OF st]]]
    by simp
qed

text \<open>
  Claim C3 asks that all callers served by one fetch get the same outcome, and in
  particular that a caller waiting on a fetch that finds no session also resolves to
  \<^verbatim>\<open>null\<close>. The code does not do the latter. Two calls for \<open>''s''\<close> are made and the
  fetch is fulfilled with no session: the leader (call 0) returns \<^verbatim>\<open>null\<close>, but the
  filter of the waiting call 1 rejects both nullish emissions, so call 1 has not settled
  and is still subscribed, although no fetch is in flight any more. Whatever happens
  afterwards, call 1 never returns \<^verbatim>\<open>null\<close>.
\<close>

theorem follower_of_not_found_keeps_waiting:
  "settled (run [Call ''s'' None, Call ''s'' None, Settle 0 (Resolved None)] init) =
     [(0, Returned None)] \<and>
   observers (run [Call ''s'' None, Call ''s'' None, Settle 0 (Resolved None)] init) = [(1, ''s'')] \<and>
   awaiting (run [Call ''s'' None, Call ''s'' None, Settle 0 (Resolved None)] init) = [] \<and>
   refreshingSessions (run [Call ''s'' None, Call ''s'' None, Settle 0 (Resolved None)] init) = [] \<and>
   fetches (run [Call ''s'' None, Call ''s'' None, Settle 0 (Resolved None)] init) = [(''s'', None)] \<and>
   (\<forall>es. map_of (settled (run es
       (run [Call ''s'' None, Call ''s'' None, Settle 0 (Resolved None)] init))) 1 \<noteq>
      Some (Returned None))"
proof -
  let ?t = "run [Call ''s'' None, Call ''s'' None, Settle 0 (Resolved None)] init"
  have e: "settled ?t = [(0, Returned None)]" "observers ?t = [(1, ''s'')]" "awaiting ?t = []"
    "refreshingSessions ?t = []" "fetches ?t = [(''s'', None)]" "nextCall ?t = 2"
    by (simp_all add: init_def wrapperCall_def subjectNext_def splice1_def)
  have c: "coherent ?t" by (rule coherent_reachable)
  have "map_of (settled (run es ?t)) 1 \<noteq> Some (Returned None)" for es
    by (rule subscribed_never_null_run [OF c]) (simp_all only: e, simp_all)
  then show ?thesis using e(1-5) by blast
qed

section \<open>The response of the error handler\<close>

text \<open>
  Claim C9. For every error given to \<^verbatim>\<open>errorHandler\<close>, the body sent is the error's
  message; the status is the error's \<^verbatim>\<open>statusCode\<close> when the error is an
  \<^verbatim>\<open>HttpError\<close> whose \<^verbatim>\<open>statusCode\<close> is truthy, and 500 in every other case: an
  error that is no \<^verbatim>\<open>HttpError\<close>, and an \<^verbatim>\<open>HttpError\<close> whose \<^verbatim>\<open>statusCode\<close> is 0
  or \<^verbatim>\<open>NaN\<close>.
\<close>

theorem errorHandler_status_and_body:
  "resBody (errorHandler e res) = Some (message e) \<and>
   resStatus (errorHandler e res) =
     (case e of
        HttpError m c \<Rightarrow> (if truthyNumber c then c else Num 500)
      | Error m \<Rightarrow> Num 500) \<and>
   resStatus (errorHandler (HttpError m0 (Num 0)) res) = Num 500 \<and>
   resStatus (errorHandler (HttpError m0 NaN) res) = Num 500"
  by (cases e) (simp_all add: send_def status_def orNumber_def)

section \<open>When the access grant check lets a request through\<close>

text \<open>
  Claim C10. \<^verbatim>\<open>validateAccessGrant\<close> calls \<^verbatim>\<open>next()\<close> if and only if the session
  holds an access grant and either holds no expiration date or the time of that date is
  not strictly less than the current time. Otherwise it answers with status 403 and does
  not call \<^verbatim>\<open>next()\<close>; when it calls \<^verbatim>\<open>next()\<close> it leaves the response untouched. In
  particular a grant stored without an expiration date is let through. A field holds a
  value when it is truthy, as the code tests it: it is present and not the empty string.
\<close>

theorem validateAccessGrant_next_iff:
  "(snd (validateAccessGrant getTime now session res) \<longleftrightarrow>
      truthyString (accessGrant session) \<and>
      (\<not> truthyString (accessGrantExpirationDate session) \<or>
       (\<exists>d. accessGrantExpirationDate session = Some d \<and> \<not> lessNumber (getTime d) now))) \<and>
   (\<not> snd (validateAccessGrant getTime now session res) \<longrightarrow>
      resStatus (fst (validateAccessGrant getTime now session res)) = Num 403 \<and>
      resBody (fst (validateAccessGrant getTime now session res)) \<noteq> None) \<and>
   (snd (validateAccessGrant getTime now session res) \<longrightarrow>
      fst (validateAccessGrant getTime now session res) = res) \<and>
   (truthyString (accessGrant session) \<and> accessGrantExpirationDate session = None \<longrightarrow>
      snd (validateAccessGrant getTime now session res))"
  by (cases "accessGrantExpirationDate session")
     (auto simp: validateAccessGrant_def send_def status_def)

theorem validateAccessGrant_next_iff_witness:
  "snd (validateAccessGrant (\<lambda>d. Num 1000) (Num 2000)
         \<lparr>accessGrant = Some ''{}'', accessGrantExpirationDate = None\<rparr>
         \<lparr>resStatus = Num 200, resBody = None\<rparr>) \<and>
   \<not> snd (validateAccessGrant (\<lambda>d. Num 1000) (Num 2000)
         \<lparr>accessGrant = Some ''{}'', accessGrantExpirationDate = Some ''1970-01-01T00:00:01Z''\<rparr>
         \<lparr>resStatus = Num 200, resBody = None\<rparr>) \<and>
   resStatus (fst (validateAccessGrant (\<lambda>d. Num 1000) (Num 2000)
         \<lparr>accessGrant = Some ''{}'', accessGrantExpirationDate = Some ''1970-01-01T00:00:01Z''\<rparr>
         \<lparr>resStatus = Num 200, resBody = None\<rparr>)) = Num 403 \<and>
   snd (validateAccessGrant (\<lambda>d. NaN) (Num 2000)
         \<lparr>accessGrant = Some ''{}'', accessGrantExpirationDate = Some ''soon''\<rparr>
         \<lparr>resStatus = Num 200, resBody = None\<rparr>)"
  using validateAccessGrant_next_iff [of "\<lambda>d. Num 1000" "Num 2000"
          "\<lparr>accessGrant = Some ''{}'', accessGrantExpirationDate = None\<rparr>"
          "\<lparr>resStatus = Num 200, resBody = None\<rparr>"]
        validateAccessGrant_next_iff [of "\<lambda>d. Num 1000" "Num 2000"
          "\<lparr>accessGrant = Some ''{}'', accessGrantExpirationDate = Some ''1970-01-01T00:00:01Z''\<rparr>"
          "\<lparr>resStatus = Num 200, resBody = None\<rparr>"]
        validateAccessGrant_next_iff [of "\<lambda>d. NaN" "Num 2000"
          "\<lparr>accessGrant = Some ''{}'', accessGrantExpirationDate = Some ''soon''\<rparr>"
          "\<lparr>resStatus = Num 200, resBody = None\<rparr>"]
  by simp

end
